theory Spec2Isabelle
  imports Main "HOL-Library.Sublist"
begin

section \<open>Strings\<close>

text \<open>
  Python strings are sequences of code points. They are modelled as \<^typ>\<open>string\<close>, a
  \<^typ>\<open>char\<close> being read as a code point below 256 (Latin-1); file names and
  descriptions using other code points are outside the model.

  \<^verbatim>\<open>str.lower()\<close> maps \<open>A\<close>..\<open>Z\<close> and, in the Latin-1 range, the code points
  192..222 except 215 (the multiplication sign) to the code point 32 above.
\<close>

definition lower_char :: "char \<Rightarrow> char" where
  "lower_char c =
     (let n = (of_char c :: nat)
      in if (65 \<le> n \<and> n \<le> 90) \<or> (192 \<le> n \<and> n \<le> 222 \<and> n \<noteq> 215)
         then char_of (n + 32) else c)"

definition lower :: "string \<Rightarrow> string" where
  "lower s = map lower_char s"

text \<open>\<^verbatim>\<open>s.startswith(p)\<close>.\<close>

fun startswith :: "string \<Rightarrow> string \<Rightarrow> bool" where
  "startswith s [] = True"
| "startswith [] (p # ps) = False"
| "startswith (c # cs) (p # ps) = (c = p \<and> startswith cs ps)"

text \<open>\<^verbatim>\<open>needle in haystack\<close> on strings: the needle occurs as a contiguous substring.\<close>

fun str_in :: "string \<Rightarrow> string \<Rightarrow> bool" where
  "str_in needle [] = (needle = [])"
| "str_in needle (c # cs) = (startswith (c # cs) needle \<or> str_in needle cs)"

text \<open>
  \<^verbatim>\<open>s.rfind(c)\<close>: the highest index of \<open>c\<close> in \<open>s\<close>; Python's \<open>-1\<close> is
  \<^const>\<open>None\<close>.
\<close>

fun rfind :: "string \<Rightarrow> char \<Rightarrow> nat option" where
  "rfind [] c = None"
| "rfind (x # xs) c =
     (case rfind xs c of
        Some i \<Rightarrow> Some (Suc i)
      | None \<Rightarrow> if x = c then Some 0 else None)"

text \<open>
  The decimal rendering of a non-negative integer, as the f-string \<^verbatim>\<open>f"{count}"\<close>
  produces it.
\<close>

definition digit_char :: "nat \<Rightarrow> char" where
  "digit_char d = char_of (48 + d)"

fun str_of_nat :: "nat \<Rightarrow> string" where
  "str_of_nat n = (if n < 10 then [digit_char n] else str_of_nat (n div 10) @ [digit_char (n mod 10)])"

declare str_of_nat.simps [simp del]

section \<open>Configuration tables\<close>

text \<open>
  Both tables are Python dict literals; iteration over \<^verbatim>\<open>.items()\<close> follows insertion
  order, so they are association lists in the order of the source.
\<close>

definition EXTENSION_MAP :: "(string \<times> string list) list" where
  "EXTENSION_MAP =
    [(''Images'', [''.jpg'', ''.jpeg'', ''.png'', ''.gif'', ''.bmp'', ''.tiff'', ''.webp'']),
     (''Documents'', [''.pdf'', ''.docx'', ''.doc'', ''.txt'', ''.xlsx'', ''.pptx'', ''.md'']),
     (''Archives'', [''.zip'', ''.tar'', ''.gz'', ''.rar'', ''.7z'']),
     (''Videos'', [''.mp4'', ''.mkv'', ''.avi'', ''.mov'']),
     (''Music'', [''.mp3'', ''.wav'', ''.aac'', ''.flac'']),
     (''Code'', [''.py'', ''.js'', ''.html'', ''.css'', ''.cpp'', ''.java'', ''.sh'']),
     (''Executables'', [''.exe'', ''.msi'', ''.deb'', ''.apk'', ''.bin'', ''.appimage'']),
     (''Others'', [])]"

definition FILE_TYPE_KEYWORDS :: "(string \<times> string list) list" where
  "FILE_TYPE_KEYWORDS =
    [(''Executables'', [''ELF'', ''executable'', ''PE32'', ''Mach-O'']),
     (''Documents'', [''PDF'', ''Microsoft'', ''Word'', ''Excel'', ''PowerPoint'', ''Rich Text'']),
     (''Archives'', [''archive'', ''compressed'', ''gzip'', ''bzip2'']),
     (''Images'', [''image'', ''bitmap'', ''JPEG'', ''PNG'']),
     (''Videos'', [''video'', ''AVI'', ''MP4'', ''Matroska'']),
     (''Music'', [''audio'', ''MPEG ADTS'', ''FLAC'', ''WAV'', ''MP3'']),
     (''Code'', [''ASCII text'', ''script'', ''source''])]"

text \<open>The closed set of category names of the specification.\<close>

definition categories :: "string set" where
  "categories = {''Images'', ''Documents'', ''Archives'', ''Videos'', ''Music'', ''Code'',
                 ''Executables'', ''Others''}"

section \<open>Classification\<close>

text \<open>
  The two nested loops of \<^verbatim>\<open>_get_category_by_file_command\<close> (lines 103 to 106):
  the inner one runs over the keywords of one category, the outer one over the table.
  \<open>full_output\<close> is already lower-cased by the caller.
\<close>

fun any_keyword_in :: "string list \<Rightarrow> string \<Rightarrow> bool" where
  "any_keyword_in [] full_output = False"
| "any_keyword_in (keyword # keywords) full_output =
     (if str_in (lower keyword) full_output then True else any_keyword_in keywords full_output)"

fun scan_keywords :: "(string \<times> string list) list \<Rightarrow> string \<Rightarrow> string option" where
  "scan_keywords [] full_output = None"
| "scan_keywords ((category, keywords) # rest) full_output =
     (if any_keyword_in keywords full_output then Some category
      else scan_keywords rest full_output)"

text \<open>\<^verbatim>\<open>_get_category_by_extension\<close> (lines 112 to 116).\<close>

fun scan_extensions :: "(string \<times> string list) list \<Rightarrow> string \<Rightarrow> string" where
  "scan_extensions [] ext = ''Others''"
| "scan_extensions ((category, extensions) # rest) ext =
     (if ext \<in> set extensions then category else scan_extensions rest ext)"

definition get_category_by_extension :: "string \<Rightarrow> string" where
  "get_category_by_extension ext = scan_extensions EXTENSION_MAP ext"

section \<open>Paths and the filesystem\<close>

text \<open>
  A \<^verbatim>\<open>pathlib.Path\<close> is the list of its components; \<^verbatim>\<open>p / s\<close> appends the
  component \<open>s\<close>. \<open>name\<close> is the last component, \<open>parent\<close> drops it.
\<close>

type_synonym path = "string list"

definition name :: "path \<Rightarrow> string" where
  "name p = (if p = [] then [] else last p)"

definition parent :: "path \<Rightarrow> path" where
  "parent p = butlast p"

text \<open>
  \<^verbatim>\<open>Path.suffix\<close> and \<^verbatim>\<open>Path.stem\<close> of pathlib (CPython up to 3.13): with
  \<open>i = name.rfind('.')\<close>, the suffix is \<open>name[i:]\<close> and the stem \<open>name[:i]\<close> when
  \<open>0 < i < len(name) - 1\<close>; otherwise the suffix is empty and the stem is the whole name.
\<close>

definition suffix_of :: "path \<Rightarrow> string" where
  "suffix_of p =
     (case rfind (name p) CHR ''.'' of
        None \<Rightarrow> []
      | Some i \<Rightarrow> if 0 < i \<and> Suc i < length (name p) then drop i (name p) else [])"

definition stem :: "path \<Rightarrow> string" where
  "stem p =
     (case rfind (name p) CHR ''.'' of
        None \<Rightarrow> name p
      | Some i \<Rightarrow> if 0 < i \<and> Suc i < length (name p) then take i (name p) else name p)"

datatype node = File | Dir

type_synonym filesystem = "path \<Rightarrow> node option"

text \<open>Exceptions (subclasses of \<^verbatim>\<open>Exception\<close>) are values.\<close>

datatype exn = FileExistsError | FileNotFoundError | NotADirectoryError | OSError string

text \<open>
  The collaborators the organizer calls: the two invocations of the \<^verbatim>\<open>file\<close> utility
  (each returns its standard output or raises), the directory listing behind
  \<^verbatim>\<open>iterdir()\<close>, and the ways the operating system may refuse to create a folder or
  to move a file. A refused move carries a flag: \<^verbatim>\<open>shutil.move\<close> falls back to
  copying the file and unlinking the source when the rename is refused, so it can raise
  with the copy already at the destination (the flag is \<^const>\<open>True\<close>) or with
  nothing written (\<^const>\<open>False\<close>).
\<close>

record env =
  run_file_mime :: "path \<Rightarrow> exn + string"
  run_file :: "path \<Rightarrow> exn + string"
  iterdir :: "filesystem \<Rightarrow> path \<Rightarrow> exn + string list"
  mkdir_error :: "path \<Rightarrow> exn option"
  move_error :: "path \<Rightarrow> path \<Rightarrow> (exn \<times> bool) option"

section \<open>State: filesystem, log and subprocess invocations\<close>

datatype level = INFO | WARNING | ERROR

text \<open>One constructor for each message the organizer logs, with the values it formats.\<close>

datatype message =
    TargetInvalid path
  | Starting path bool
  | FailedToProcess path exn
  | SkippingHidden string
  | WouldMove string path
  | Moved string path
  | CouldNotDetermine string exn

type_synonym log_record = "level \<times> message"

datatype proc_call = FileMimeType path | FileVerbose path

record state =
  fs :: filesystem
  log :: "log_record list"
  procs :: "proc_call list"

text \<open>The fields of \<^verbatim>\<open>self\<close>; the logger is the \<^const>\<open>log\<close> of the state.\<close>

record organizer =
  target_dir :: path
  dry_run :: bool

definition logger :: "level \<Rightarrow> message \<Rightarrow> state \<Rightarrow> state" where
  "logger l m s = s\<lparr>log := log s @ [(l, m)]\<rparr>"

definition subprocess_run :: "proc_call \<Rightarrow> state \<Rightarrow> state" where
  "subprocess_run c s = s\<lparr>procs := procs s @ [c]\<rparr>"

section \<open>The organizer\<close>

text \<open>
  \<^verbatim>\<open>_get_category_by_file_command\<close> (lines 94 to 110). Any exception of the two
  subprocess calls is caught, logged as a warning, and the function returns \<open>None\<close>.
  The MIME type of the first call is not used.
\<close>

definition get_category_by_file_command :: "env \<Rightarrow> path \<Rightarrow> state \<Rightarrow> state \<times> string option" where
  "get_category_by_file_command e file_path s =
     (let s1 = subprocess_run (FileMimeType file_path) s in
      case run_file_mime e file_path of
        Inl x \<Rightarrow> (logger WARNING (CouldNotDetermine (name file_path) x) s1, None)
      | Inr mime_type \<Rightarrow>
          (let s2 = subprocess_run (FileVerbose file_path) s1 in
           case run_file e file_path of
             Inl x \<Rightarrow> (logger WARNING (CouldNotDetermine (name file_path) x) s2, None)
           | Inr stdout \<Rightarrow> (s2, scan_keywords FILE_TYPE_KEYWORDS (lower stdout))))"

text \<open>
  Lines 79 to 81 of \<^verbatim>\<open>_process_file\<close>, the classifier of the specification:
  \<^verbatim>\<open>not category\<close> holds for \<open>None\<close> and for the empty string.
\<close>

definition classify :: "env \<Rightarrow> path \<Rightarrow> state \<Rightarrow> state \<times> string" where
  "classify e file_path s =
     (case get_category_by_file_command e file_path s of
        (s1, Some category) \<Rightarrow>
          if category = [] then (s1, get_category_by_extension (lower (suffix_of file_path)))
          else (s1, category)
      | (s1, None) \<Rightarrow> (s1, get_category_by_extension (lower (suffix_of file_path))))"

text \<open>
  \<^verbatim>\<open>_resolve_conflict\<close> (lines 118 to 130). The \<^verbatim>\<open>while True\<close> loop has no bound,
  so it is a partial function: \<^const>\<open>None\<close> is the loop that never returns.
\<close>

partial_function (option) resolve_loop ::
  "filesystem \<Rightarrow> path \<Rightarrow> string \<Rightarrow> string \<Rightarrow> nat \<Rightarrow> path option" where
  "resolve_loop f dir base ext count =
     (let new_name = base @ ''_'' @ str_of_nat count @ ext;
          new_path = dir @ [new_name]
      in if f new_path = None then Some new_path
         else resolve_loop f dir base ext (count + 1))"

declare resolve_loop.simps [code]

definition resolve_conflict :: "filesystem \<Rightarrow> path \<Rightarrow> path option" where
  "resolve_conflict f destination =
     (if f destination = None then Some destination
      else resolve_loop f (parent destination) (stem destination) (suffix_of destination) 1)"

text \<open>
  \<^verbatim>\<open>destination_folder.mkdir(exist_ok=True)\<close>: an existing directory is accepted, an
  existing regular file raises, a missing parent raises, and the operating system may
  refuse the creation.
\<close>

definition mkdir :: "env \<Rightarrow> path \<Rightarrow> state \<Rightarrow> exn + state" where
  "mkdir e p s =
     (case fs s p of
        Some Dir \<Rightarrow> Inr s
      | Some File \<Rightarrow> Inl FileExistsError
      | None \<Rightarrow>
          (case fs s (parent p) of
             None \<Rightarrow> Inl FileNotFoundError
           | Some File \<Rightarrow> Inl NotADirectoryError
           | Some Dir \<Rightarrow>
               (case mkdir_error e p of
                  Some x \<Rightarrow> Inl x
                | None \<Rightarrow> Inr (s\<lparr>fs := (fs s)(p \<mapsto> Dir)\<rparr>))))"

text \<open>
  \<^verbatim>\<open>shutil.move(src, dst)\<close> of a regular file (the only sources the organizer passes,
  line 69), with the state it leaves: a destination that is a directory receives the file
  under its own name and raises if that name is taken; otherwise the file is renamed to
  \<open>dst\<close>. When the rename is refused the file is copied and the source unlinked, so
  a move that raises leaves either the filesystem as it was or the source in place and
  a copy at the destination.
\<close>

definition move :: "env \<Rightarrow> path \<Rightarrow> path \<Rightarrow> state \<Rightarrow> state \<times> (exn + unit)" where
  "move e src dst s =
     (let real_dst = (if fs s dst = Some Dir then dst @ [name src] else dst) in
      if fs s dst = Some Dir \<and> fs s real_dst \<noteq> None
      then (s, Inl (OSError ''Destination path already exists''))
      else (case fs s src of
              None \<Rightarrow> (s, Inl FileNotFoundError)
            | Some n \<Rightarrow>
                if fs s (parent real_dst) \<noteq> Some Dir then (s, Inl FileNotFoundError)
                else (case move_error e src real_dst of
                        Some (x, copy_left) \<Rightarrow>
                          (if copy_left then s\<lparr>fs := (fs s)(real_dst \<mapsto> n)\<rparr> else s, Inl x)
                      | None \<Rightarrow>
                          (s\<lparr>fs := (fs s)(src := None, real_dst := Some n)\<rparr>, Inr ()))))"

text \<open>
  \<^verbatim>\<open>_process_file\<close> (lines 74 to 92). The result is \<^const>\<open>None\<close> when the naming
  loop never returns; otherwise the state reached, which after a failed move is the state
  the move left, and either the exception raised or the normal return.
\<close>

definition process_file :: "env \<Rightarrow> organizer \<Rightarrow> path \<Rightarrow> state \<Rightarrow> (state \<times> (exn + unit)) option" where
  "process_file e self file_path s =
     (if startswith (name file_path) ''.''
      then Some (logger INFO (SkippingHidden (name file_path)) s, Inr ())
      else
        (case classify e file_path s of
           (s1, category) \<Rightarrow>
             (let destination_folder = target_dir self @ [category] in
              case mkdir e destination_folder s1 of
                Inl x \<Rightarrow> Some (s1, Inl x)
              | Inr s2 \<Rightarrow>
                  (case resolve_conflict (fs s2) (destination_folder @ [name file_path]) of
                     None \<Rightarrow> None
                   | Some new_path \<Rightarrow>
                       if dry_run self
                       then Some (logger INFO (WouldMove (name file_path) new_path) s2, Inr ())
                       else (case move e file_path new_path s2 of
                               (s3, Inl x) \<Rightarrow> Some (s3, Inl x)
                             | (s3, Inr u) \<Rightarrow>
                                 Some (logger INFO (Moved (name file_path) new_path) s3, Inr ()))))))"

text \<open>
  The body of the \<^verbatim>\<open>for\<close> loop of \<^verbatim>\<open>organize\<close> (lines 68 to 72): the
  \<^verbatim>\<open>try\<close> block and its handler, which logs the exception and lets the loop go on.
\<close>

definition try_entry :: "env \<Rightarrow> organizer \<Rightarrow> path \<Rightarrow> state \<Rightarrow> state option" where
  "try_entry e self entry s =
     (case (if fs s entry = Some File then process_file e self entry s else Some (s, Inr ())) of
        None \<Rightarrow> None
      | Some (s1, Inl x) \<Rightarrow> Some (logger ERROR (FailedToProcess entry x) s1)
      | Some (s1, Inr u) \<Rightarrow> Some s1)"

fun organize_loop :: "env \<Rightarrow> organizer \<Rightarrow> path list \<Rightarrow> state \<Rightarrow> state option" where
  "organize_loop e self [] s = Some s"
| "organize_loop e self (entry # entries) s =
     (case try_entry e self entry s of
        None \<Rightarrow> None
      | Some s1 \<Rightarrow> organize_loop e self entries s1)"

text \<open>
  \<^verbatim>\<open>organize\<close> (lines 60 to 72). The listing of the directory is taken once, before
  the first entry is processed, and may itself raise.
\<close>

definition organize :: "env \<Rightarrow> organizer \<Rightarrow> state \<Rightarrow> (state \<times> (exn + unit)) option" where
  "organize e self s =
     (if fs s (target_dir self) \<noteq> Some Dir
      then Some (logger ERROR (TargetInvalid (target_dir self)) s, Inr ())
      else
        (let s1 = logger INFO (Starting (target_dir self) (dry_run self)) s in
         case iterdir e (fs s1) (target_dir self) of
           Inl x \<Rightarrow> Some (s1, Inl x)
         | Inr names \<Rightarrow>
             (case organize_loop e self (map (\<lambda>n. target_dir self @ [n]) names) s1 of
                None \<Rightarrow> None
              | Some s2 \<Rightarrow> Some (s2, Inr ()))))"

section \<open>Specification-side definitions\<close>

text \<open>
  The name \<open>stem_k.ext\<close> of the specification: the \<open>k\<close>-th candidate beside a
  destination.
\<close>

definition candidate :: "path \<Rightarrow> nat \<Rightarrow> path" where
  "candidate destination k =
     parent destination @ [stem destination @ ''_'' @ str_of_nat k @ suffix_of destination]"

text \<open>
  The content tier in the specification's words: the categories in the declared order,
  a category matching when one of its keywords, lower-cased, is a substring of the
  lower-cased description; the first matching category is the answer.
\<close>

definition declared_order :: "string list" where
  "declared_order =
     [''Executables'', ''Documents'', ''Archives'', ''Images'', ''Videos'', ''Music'', ''Code'']"

definition keywords_of :: "string \<Rightarrow> string list" where
  "keywords_of category = (case map_of FILE_TYPE_KEYWORDS category of None \<Rightarrow> [] | Some ks \<Rightarrow> ks)"

definition keyword_match :: "string \<Rightarrow> string \<Rightarrow> bool" where
  "keyword_match description category =
     (\<exists>k \<in> set (keywords_of category). str_in (lower k) (lower description))"

definition first_match :: "string \<Rightarrow> string option" where
  "first_match description = find (keyword_match description) declared_order"

text \<open>The extensions of the extension table.\<close>

definition known_extensions :: "string set" where
  "known_extensions = (\<Union>(c, exts) \<in> set EXTENSION_MAP. set exts)"

text \<open>
  The content sniff is inconclusive when one of the two invocations raises or when no
  keyword matches the description.
\<close>

definition inconclusive :: "env \<Rightarrow> path \<Rightarrow> bool" where
  "inconclusive e file_path =
     (case run_file_mime e file_path of
        Inl x \<Rightarrow> True
      | Inr mime_type \<Rightarrow>
          (case run_file e file_path of
             Inl x \<Rightarrow> True
           | Inr description \<Rightarrow> first_match description = None))"

text \<open>The destination paths an observer reads off the log.\<close>

fun logged_destination :: "message \<Rightarrow> path option" where
  "logged_destination (WouldMove n p) = Some p"
| "logged_destination (Moved n p) = Some p"
| "logged_destination m = None"

definition destinations :: "state \<Rightarrow> path list" where
  "destinations s = List.map_filter (\<lambda>r. logged_destination (snd r)) (log s)"

section \<open>Concrete inputs\<close>

text \<open>A machine without the \<^verbatim>\<open>file\<close> utility, and one where it answers.\<close>

definition no_sniffer :: env where
  "no_sniffer =
     \<lparr>run_file_mime = (\<lambda>p. Inl (OSError ''No such file or directory: file'')),
      run_file = (\<lambda>p. Inl (OSError ''No such file or directory: file'')),
      iterdir = (\<lambda>f p. Inr []),
      mkdir_error = (\<lambda>p. None),
      move_error = (\<lambda>p q. None)\<rparr>"

definition script_sniffer :: env where
  "script_sniffer =
     \<lparr>run_file_mime = (\<lambda>p. Inr ''text/x-shellscript''),
      run_file = (\<lambda>p. Inr ''/d/run: POSIX shell script, ASCII text executable''),
      iterdir = (\<lambda>f p. Inr []),
      mkdir_error = (\<lambda>p. None),
      move_error = (\<lambda>p q. None)\<rparr>"

definition empty_state :: state where
  "empty_state = \<lparr>fs = (\<lambda>p. None), log = [], procs = []\<rparr>"

text \<open>A category folder that already holds \<open>a.txt\<close> and \<open>a_1.txt\<close>.\<close>

definition taken_twice :: filesystem where
  "taken_twice =
     [[''d''] \<mapsto> Dir, [''d'', ''Documents''] \<mapsto> Dir,
      [''d'', ''Documents'', ''a.txt''] \<mapsto> File,
      [''d'', ''Documents'', ''a_1.txt''] \<mapsto> File]"

text \<open>
  A directory \<open>d\<close> holding the single file \<open>a.txt\<close>, and the same directory when
  the folder \<open>Documents\<close> already holds \<open>a.txt\<close> and \<open>a_1.txt\<close>.
\<close>

definition inbox :: state where
  "inbox = \<lparr>fs = [[''d''] \<mapsto> Dir, [''d'', ''a.txt''] \<mapsto> File], log = [], procs = []\<rparr>"

definition crowded_inbox :: state where
  "crowded_inbox = \<lparr>fs = taken_twice([''d'', ''a.txt''] \<mapsto> File), log = [], procs = []\<rparr>"

text \<open>
  Three files; the rename of the second is refused, its copy is written and the unlink of
  the source raises.
\<close>

definition three_files :: state where
  "three_files =
     \<lparr>fs = [[''d''] \<mapsto> Dir, [''d'', ''a.txt''] \<mapsto> File, [''d'', ''b.txt''] \<mapsto> File,
            [''d'', ''c.txt''] \<mapsto> File],
      log = [], procs = []\<rparr>"

definition locked_b :: env where
  "locked_b =
     \<lparr>run_file_mime = (\<lambda>p. Inl (OSError ''No such file or directory: file'')),
      run_file = (\<lambda>p. Inl (OSError ''No such file or directory: file'')),
      iterdir = (\<lambda>f p. Inr [''a.txt'', ''b.txt'', ''c.txt'']),
      mkdir_error = (\<lambda>p. None),
      move_error = (\<lambda>p q. if p = [''d'', ''b.txt'']
                             then Some (OSError ''Permission denied'', True) else None)\<rparr>"

text \<open>A directory the operating system refuses to list.\<close>

definition unreadable :: env where
  "unreadable =
     \<lparr>run_file_mime = (\<lambda>p. Inl (OSError ''No such file or directory: file'')),
      run_file = (\<lambda>p. Inl (OSError ''No such file or directory: file'')),
      iterdir = (\<lambda>f p. Inl (OSError ''Permission denied'')),
      mkdir_error = (\<lambda>p. None),
      move_error = (\<lambda>p q. None)\<rparr>"



text \<open>
  A directory where \<open>a.txt\<close> and \<open>a_1.txt\<close> wait beside a \<open>Documents\<close> folder
  that already holds an \<open>a.txt\<close>.
\<close>

definition colliding_inbox :: state where
  "colliding_inbox =
     \<lparr>fs = [[''d''] \<mapsto> Dir, [''d'', ''Documents''] \<mapsto> Dir,
            [''d'', ''Documents'', ''a.txt''] \<mapsto> File,
            [''d'', ''a.txt''] \<mapsto> File, [''d'', ''a_1.txt''] \<mapsto> File],
      log = [], procs = []\<rparr>"

section \<open>Properties of strings\<close>

lemma startswith_iff: "startswith s p \<longleftrightarrow> (\<exists>post. s = p @ post)"
  by (induction s p rule: startswith.induct) auto

lemma str_in_iff: "str_in needle h \<longleftrightarrow> (\<exists>pre post. h = pre @ needle @ post)"
proof (induction h)
  case Nil
  then show ?case by auto
next
  case (Cons c cs)
  show ?case
  proof
    assume "str_in needle (c # cs)"
    then consider "startswith (c # cs) needle" | "str_in needle cs" by auto
    then show "\<exists>pre post. c # cs = pre @ needle @ post"
    proof cases
      case 1
      then obtain post where "c # cs = needle @ post" by (auto simp: startswith_iff)
      then have "c # cs = [] @ needle @ post" by simp
      then show ?thesis by blast
    next
      case 2
      then obtain pre post where "cs = pre @ needle @ post" using Cons.IH by blast
      then have "c # cs = (c # pre) @ needle @ post" by simp
      then show ?thesis by blast
    qed
  next
    assume "\<exists>pre post. c # cs = pre @ needle @ post"
    then obtain pre post where eq: "c # cs = pre @ needle @ post" by blast
    show "str_in needle (c # cs)"
    proof (cases pre)
      case Nil
      with eq have "startswith (c # cs) needle" by (auto simp: startswith_iff)
      then show ?thesis by simp
    next
      case (Cons a pre')
      with eq have "cs = pre' @ needle @ post" by simp
      then have "str_in needle cs" using Cons.IH by blast
      then show ?thesis by simp
    qed
  qed
qed

lemma stem_suffix_of: "stem p @ suffix_of p = name p"
  by (simp add: stem_def suffix_of_def split: option.splits)

lemma digit_char_inj:
  assumes "a < 10" and "b < 10" and "digit_char a = digit_char b"
  shows "a = b"
proof -
  have "(of_char (digit_char a) :: nat) = of_char (digit_char b)" using assms(3) by simp
  then have "(48 + a) mod 256 = (48 + b) mod 256"
    by (simp add: digit_char_def)
  then show "a = b" using assms(1,2) by simp
qed

lemma str_of_nat_small: "n < 10 \<Longrightarrow> str_of_nat n = [digit_char n]"
  by (subst str_of_nat.simps) simp

lemma str_of_nat_large:
  "\<not> n < 10 \<Longrightarrow> str_of_nat n = str_of_nat (n div 10) @ [digit_char (n mod 10)]"
  by (subst str_of_nat.simps) simp

lemma str_of_nat_nonempty: "str_of_nat n \<noteq> []"
  by (subst str_of_nat.simps) simp

lemma str_of_nat_inj: "str_of_nat a = str_of_nat b \<Longrightarrow> a = b"
proof (induction a arbitrary: b rule: str_of_nat.induct)
  case (1 n)
  show ?case
  proof (cases "n < 10")
    case True
    note sn = str_of_nat_small[OF True]
    show ?thesis
    proof (cases "b < 10")
      case bt: True
      with sn "1.prems" True show ?thesis
        by (auto simp: str_of_nat_small dest: digit_char_inj)
    next
      case False
      with sn "1.prems" have "str_of_nat (b div 10) = []"
        by (simp add: str_of_nat_large)
      then show ?thesis using str_of_nat_nonempty by blast
    qed
  next
    case False
    note sn = str_of_nat_large[OF False]
    show ?thesis
    proof (cases "b < 10")
      case True
      with sn "1.prems" have "str_of_nat (n div 10) = []"
        by (simp add: str_of_nat_small)
      then show ?thesis using str_of_nat_nonempty by blast
    next
      case bf: False
      note sb = str_of_nat_large[OF bf]
      from sn sb "1.prems" have e1: "str_of_nat (n div 10) = str_of_nat (b div 10)"
        and e2: "digit_char (n mod 10) = digit_char (b mod 10)" by simp_all
      from "1.IH"[OF False e1] have d: "n div 10 = b div 10" .
      from e2 have m: "n mod 10 = b mod 10" by (auto dest!: digit_char_inj[rotated 2])
      from d m show ?thesis by (metis div_mult_mod_eq)
    qed
  qed
qed

section \<open>The naming loop\<close>

lemma resolve_loop_free:
  "f (dir @ [base @ ''_'' @ str_of_nat count @ ext]) = None \<Longrightarrow>
   resolve_loop f dir base ext count = Some (dir @ [base @ ''_'' @ str_of_nat count @ ext])"
  by (subst resolve_loop.simps) (simp add: Let_def)

lemma resolve_loop_taken:
  "f (dir @ [base @ ''_'' @ str_of_nat count @ ext]) \<noteq> None \<Longrightarrow>
   resolve_loop f dir base ext count = resolve_loop f dir base ext (Suc count)"
  by (subst resolve_loop.simps) (auto simp: Let_def)

lemma resolve_loop_least:
  assumes "count \<le> k"
    and "f (dir @ [base @ ''_'' @ str_of_nat k @ ext]) = None"
    and "\<forall>j. count \<le> j \<and> j < k \<longrightarrow> f (dir @ [base @ ''_'' @ str_of_nat j @ ext]) \<noteq> None"
  shows "resolve_loop f dir base ext count = Some (dir @ [base @ ''_'' @ str_of_nat k @ ext])"
  using assms
proof (induction "k - count" arbitrary: count)
  case 0
  then have "count = k" by simp
  with "0.prems"(2) show ?case by (simp add: resolve_loop_free)
next
  case (Suc d)
  then have lt: "count < k" by simp
  with Suc.prems(3) have "f (dir @ [base @ ''_'' @ str_of_nat count @ ext]) \<noteq> None" by simp
  then have "resolve_loop f dir base ext count = resolve_loop f dir base ext (Suc count)"
    by (rule resolve_loop_taken)
  moreover have "resolve_loop f dir base ext (Suc count) = Some (dir @ [base @ ''_'' @ str_of_nat k @ ext])"
  proof (rule Suc.hyps(1))
    show "d = k - Suc count" using Suc.hyps(2) by simp
    show "Suc count \<le> k" using lt by simp
    show "f (dir @ [base @ ''_'' @ str_of_nat k @ ext]) = None" by (rule Suc.prems(2))
    show "\<forall>j. Suc count \<le> j \<and> j < k \<longrightarrow> f (dir @ [base @ ''_'' @ str_of_nat j @ ext]) \<noteq> None"
      using Suc.prems(3) by simp
  qed
  ultimately show ?case by simp
qed


lemma resolve_loop_Some:
  assumes "resolve_loop f dir base ext count = Some p"
  shows "\<exists>k\<ge>count. p = dir @ [base @ ''_'' @ str_of_nat k @ ext] \<and> f p = None"
proof (rule resolve_loop.raw_induct[where P = "\<lambda>f dir base ext count p.
         \<exists>k\<ge>count. p = dir @ [base @ ''_'' @ str_of_nat k @ ext] \<and> f p = None", OF _ assms])
  fix rl :: "filesystem \<Rightarrow> path \<Rightarrow> string \<Rightarrow> string \<Rightarrow> nat \<Rightarrow> path option"
  fix f dir base ext count p
  assume IH: "\<And>f dir base ext count p. rl f dir base ext count = Some p \<Longrightarrow>
         \<exists>k\<ge>count. p = dir @ [base @ ''_'' @ str_of_nat k @ ext] \<and> f p = None"
  assume step: "(let new_name = base @ ''_'' @ str_of_nat count @ ext; new_path = dir @ [new_name]
      in if f new_path = None then Some new_path else rl f dir base ext (count + 1)) = Some p"
  show "\<exists>k\<ge>count. p = dir @ [base @ ''_'' @ str_of_nat k @ ext] \<and> f p = None"
  proof (cases "f (dir @ [base @ ''_'' @ str_of_nat count @ ext]) = None")
    case True
    with step have "p = dir @ [base @ ''_'' @ str_of_nat count @ ext]" by (simp add: Let_def)
    with True show ?thesis by blast
  next
    case False
    with step have "rl f dir base ext (count + 1) = Some p" by (auto simp: Let_def)
    from IH[OF this] obtain k where "k \<ge> count + 1"
      and "p = dir @ [base @ ''_'' @ str_of_nat k @ ext]" and "f p = None" by blast
    then show ?thesis by (intro exI[of _ k]) simp
  qed
qed

lemma resolve_loop_None:
  assumes "\<forall>k\<ge>count. f (dir @ [base @ ''_'' @ str_of_nat k @ ext]) \<noteq> None"
  shows "resolve_loop f dir base ext count = None"
proof (rule ccontr)
  assume "resolve_loop f dir base ext count \<noteq> None"
  then obtain p where "resolve_loop f dir base ext count = Some p" by blast
  from resolve_loop_Some[OF this] assms show False by blast
qed

section \<open>Properties of classification\<close>

lemma any_keyword_in_iff:
  "any_keyword_in kws out \<longleftrightarrow> (\<exists>k \<in> set kws. str_in (lower k) out)"
  by (induction kws) auto

lemma scan_keywords_first_match:
  "scan_keywords FILE_TYPE_KEYWORDS (lower description) = first_match description"
  by (simp add: FILE_TYPE_KEYWORDS_def first_match_def declared_order_def keyword_match_def
      keywords_of_def any_keyword_in_iff)

lemma scan_keywords_fst: "scan_keywords table out = Some c \<Longrightarrow> c \<in> fst ` set table"
  by (induction table out rule: scan_keywords.induct) (auto split: if_splits)

lemma scan_extensions_range: "scan_extensions table ext \<in> insert ''Others'' (fst ` set table)"
  by (induction table ext rule: scan_extensions.induct) auto

lemma scan_extensions_unknown:
  "ext \<notin> (\<Union>(c, exts) \<in> set table. set exts) \<Longrightarrow> scan_extensions table ext = ''Others''"
  by (induction table ext rule: scan_extensions.induct) auto

lemma FILE_TYPE_KEYWORDS_names: "map fst FILE_TYPE_KEYWORDS = declared_order"
  by (simp add: FILE_TYPE_KEYWORDS_def declared_order_def)

lemma declared_order_categories: "set declared_order \<subseteq> categories - {''Others'', []}"
  by (simp add: declared_order_def categories_def)

lemma EXTENSION_MAP_names: "insert ''Others'' (fst ` set EXTENSION_MAP) = categories"
  by (auto simp: EXTENSION_MAP_def categories_def)

lemma get_category_by_file_command_snd:
  "snd (get_category_by_file_command e file_path s) =
     (case run_file_mime e file_path of
        Inl x \<Rightarrow> None
      | Inr mime_type \<Rightarrow>
          (case run_file e file_path of
             Inl x \<Rightarrow> None
           | Inr description \<Rightarrow> first_match description))"
  by (simp add: get_category_by_file_command_def Let_def scan_keywords_first_match
      split: sum.splits)

lemma first_match_declared: "first_match description = Some c \<Longrightarrow> c \<in> set declared_order"
  unfolding first_match_def by (auto simp: find_Some_iff)

lemma content_tier_range:
  "snd (get_category_by_file_command e file_path s) = Some c \<Longrightarrow> c \<in> set declared_order"
  by (auto simp: get_category_by_file_command_snd split: sum.splits dest: first_match_declared)

lemma classify_snd:
  "snd (classify e file_path s) =
     (case snd (get_category_by_file_command e file_path s) of
        None \<Rightarrow> get_category_by_extension (lower (suffix_of file_path))
      | Some c \<Rightarrow> c)"
proof (cases "get_category_by_file_command e file_path s")
  case (Pair s1 r)
  show ?thesis
  proof (cases r)
    case None
    with Pair show ?thesis by (simp add: classify_def)
  next
    case (Some c)
    with Pair have "c \<in> set declared_order"
      using content_tier_range[of e file_path s c] by simp
    then have "c \<noteq> []" using declared_order_categories by auto
    with Pair Some show ?thesis by (simp add: classify_def)
  qed
qed

lemma inconclusive_iff:
  "inconclusive e file_path \<longleftrightarrow> snd (get_category_by_file_command e file_path s) = None"
  by (simp add: inconclusive_def get_category_by_file_command_snd split: sum.splits)

lemma classify_categories: "snd (classify e file_path s) \<in> categories"
proof (cases "snd (get_category_by_file_command e file_path s)")
  case None
  then show ?thesis
    using scan_extensions_range[of EXTENSION_MAP "lower (suffix_of file_path)"]
    by (simp add: classify_snd get_category_by_extension_def EXTENSION_MAP_names)
next
  case (Some c)
  then have "c \<in> set declared_order" by (rule content_tier_range)
  with Some show ?thesis using declared_order_categories by (auto simp: classify_snd)
qed

text \<open>
  Claim C3. The classifier is total: its result is always one of the eight category
  names, and its model has no exceptional result, every exception of the content sniff
  being caught inside \<^const>\<open>get_category_by_file_command\<close>. When the sniff is
  inconclusive and the lower-cased extension is not in the extension table, in particular
  when the extension is empty, the result is \<open>Others\<close>.
\<close>

theorem classify_total:
  "snd (classify e file_path s) \<in> categories \<and>
   (inconclusive e file_path \<and> lower (suffix_of file_path) \<notin> known_extensions
      \<longrightarrow> snd (classify e file_path s) = ''Others'') \<and>
   (inconclusive e file_path \<and> suffix_of file_path = []
      \<longrightarrow> snd (classify e file_path s) = ''Others'')"
proof (intro conjI impI)
  show "snd (classify e file_path s) \<in> categories" by (rule classify_categories)
next
  assume "inconclusive e file_path \<and> lower (suffix_of file_path) \<notin> known_extensions"
  then show "snd (classify e file_path s) = ''Others''"
    by (simp add: classify_snd inconclusive_iff[of e file_path s] get_category_by_extension_def
        known_extensions_def scan_extensions_unknown)
next
  have "[] \<notin> known_extensions"
    by (simp add: known_extensions_def EXTENSION_MAP_def)
  moreover assume "inconclusive e file_path \<and> suffix_of file_path = []"
  ultimately show "snd (classify e file_path s) = ''Others''"
    by (simp add: classify_snd inconclusive_iff[of e file_path s] get_category_by_extension_def
        known_extensions_def scan_extensions_unknown lower_def)
qed

theorem classify_total_witness:
  "inconclusive no_sniffer [''d'', ''archive.xyz''] \<and>
   lower (suffix_of [''d'', ''archive.xyz'']) \<notin> known_extensions \<and>
   snd (classify no_sniffer [''d'', ''archive.xyz''] empty_state) = ''Others'' \<and>
   inconclusive no_sniffer [''d'', ''README''] \<and> suffix_of [''d'', ''README''] = [] \<and>
   snd (classify no_sniffer [''d'', ''README''] empty_state) = ''Others''"
proof -
  have a: "inconclusive no_sniffer [''d'', ''archive.xyz'']"
    and b: "inconclusive no_sniffer [''d'', ''README'']"
    by (simp_all add: inconclusive_def no_sniffer_def)
  have c: "lower (suffix_of [''d'', ''archive.xyz'']) \<notin> known_extensions" by code_simp
  have d: "suffix_of [''d'', ''README''] = []" by code_simp
  show ?thesis
    using a b c d classify_total[of no_sniffer "[''d'', ''archive.xyz'']" empty_state]
      classify_total[of no_sniffer "[''d'', ''README'']" empty_state]
    by blast
qed

text \<open>
  Claim C5. When both invocations of the sniffer return, the content tier answers with
  the first category, in the declared order Executables, Documents, Archives, Images,
  Videos, Music, Code, one of whose lower-cased keywords is a substring of the lower-cased
  description: a category is returned exactly when it matches and no category declared
  before it does. The declared order is the order of the source table.
\<close>

theorem content_first_match_wins:
  "(run_file_mime e file_path = Inr mime_type \<and> run_file e file_path = Inr description
      \<longrightarrow> snd (get_category_by_file_command e file_path s) = first_match description) \<and>
   (first_match description = Some c \<longleftrightarrow>
      (\<exists>i < length declared_order. declared_order ! i = c \<and> keyword_match description c \<and>
         (\<forall>j < i. \<not> keyword_match description (declared_order ! j)))) \<and>
   (keyword_match description c \<longleftrightarrow>
      (\<exists>k \<in> set (keywords_of c). \<exists>pre post. lower description = pre @ lower k @ post)) \<and>
   map fst FILE_TYPE_KEYWORDS = declared_order \<and>
   (\<forall>c \<in> set declared_order. map_of FILE_TYPE_KEYWORDS c = Some (keywords_of c))"
proof (intro conjI impI)
  assume "run_file_mime e file_path = Inr mime_type \<and> run_file e file_path = Inr description"
  then show "snd (get_category_by_file_command e file_path s) = first_match description"
    by (simp add: get_category_by_file_command_snd)
next
  show "first_match description = Some c \<longleftrightarrow>
      (\<exists>i < length declared_order. declared_order ! i = c \<and> keyword_match description c \<and>
         (\<forall>j < i. \<not> keyword_match description (declared_order ! j)))"
    unfolding first_match_def find_Some_iff by auto
next
  show "keyword_match description c \<longleftrightarrow>
      (\<exists>k \<in> set (keywords_of c). \<exists>pre post. lower description = pre @ lower k @ post)"
    by (simp add: keyword_match_def str_in_iff)
next
  show "map fst FILE_TYPE_KEYWORDS = declared_order" by (rule FILE_TYPE_KEYWORDS_names)
next
  show "\<forall>c \<in> set declared_order. map_of FILE_TYPE_KEYWORDS c = Some (keywords_of c)"
    by (simp add: declared_order_def keywords_of_def FILE_TYPE_KEYWORDS_def)
qed

theorem content_first_match_wins_witness:
  "run_file_mime script_sniffer [''d'', ''run''] = Inr ''text/x-shellscript'' \<and>
   run_file script_sniffer [''d'', ''run'']
     = Inr ''/d/run: POSIX shell script, ASCII text executable'' \<and>
   keyword_match ''/d/run: POSIX shell script, ASCII text executable'' ''Executables'' \<and>
   keyword_match ''/d/run: POSIX shell script, ASCII text executable'' ''Code'' \<and>
   snd (get_category_by_file_command script_sniffer [''d'', ''run''] empty_state)
     = Some ''Executables''"
proof -
  have a: "run_file_mime script_sniffer [''d'', ''run''] = Inr ''text/x-shellscript''"
    and b: "run_file script_sniffer [''d'', ''run'']
              = Inr ''/d/run: POSIX shell script, ASCII text executable''"
    by (simp_all add: script_sniffer_def)
  have c: "keyword_match ''/d/run: POSIX shell script, ASCII text executable'' ''Executables''"
    by code_simp
  have d: "keyword_match ''/d/run: POSIX shell script, ASCII text executable'' ''Code''"
    by code_simp
  have e: "first_match ''/d/run: POSIX shell script, ASCII text executable'' = Some ''Executables''"
    by code_simp
  show ?thesis
    using a b c d e
      content_first_match_wins[of script_sniffer "[''d'', ''run'']" "''text/x-shellscript''"
        "''/d/run: POSIX shell script, ASCII text executable''" empty_state "''Executables''"]
    by simp
qed

text \<open>
  Claim C10. The content tier returns one of the seven categories that declare keywords,
  or nothing; it never returns \<open>Others\<close>, for which the keyword table has no entry.
  Whenever the classifier answers \<open>Others\<close>, the content tier was inconclusive and the
  answer came from the extension lookup.
\<close>

theorem content_tier_never_others:
  "snd (get_category_by_file_command e file_path s) \<in> insert None (Some ` set declared_order) \<and>
   snd (get_category_by_file_command e file_path s) \<noteq> Some ''Others'' \<and>
   ''Others'' \<notin> fst ` set FILE_TYPE_KEYWORDS \<and>
   (snd (classify e file_path s) = ''Others'' \<longrightarrow>
      snd (get_category_by_file_command e file_path s) = None \<and>
      get_category_by_extension (lower (suffix_of file_path)) = ''Others'')"
proof -
  have others: "''Others'' \<notin> set declared_order" by (simp add: declared_order_def)
  have range: "snd (get_category_by_file_command e file_path s) \<in> insert None (Some ` set declared_order)"
    by (cases "snd (get_category_by_file_command e file_path s)") (auto dest: content_tier_range)
  have no: "snd (get_category_by_file_command e file_path s) \<noteq> Some ''Others''"
    using others content_tier_range by blast
  have tab: "''Others'' \<notin> fst ` set FILE_TYPE_KEYWORDS"
    using others FILE_TYPE_KEYWORDS_names by (metis set_map)
  have only: "snd (classify e file_path s) = ''Others'' \<longrightarrow>
      snd (get_category_by_file_command e file_path s) = None \<and>
      get_category_by_extension (lower (suffix_of file_path)) = ''Others''"
    using no by (cases "snd (get_category_by_file_command e file_path s)") (auto simp: classify_snd)
  from range no tab only show ?thesis by blast
qed

theorem content_tier_never_others_witness:
  "snd (classify no_sniffer [''d'', ''archive.xyz''] empty_state) = ''Others'' \<and>
   snd (get_category_by_file_command no_sniffer [''d'', ''archive.xyz''] empty_state) = None"
proof -
  have "snd (classify no_sniffer [''d'', ''archive.xyz''] empty_state) = ''Others''"
    by code_simp
  then show ?thesis
    using content_tier_never_others[of no_sniffer "[''d'', ''archive.xyz'']" empty_state]
    by blast
qed

section \<open>Destination resolution\<close>

lemma candidate_inj: "candidate destination j = candidate destination k \<Longrightarrow> j = k"
  by (simp add: candidate_def str_of_nat_inj)

lemma candidate_neq: "candidate destination k \<noteq> destination"
proof
  assume eq: "candidate destination k = destination"
  then have ne: "destination \<noteq> []" by (auto simp: candidate_def)
  then have "destination = butlast destination @ [last destination]" by simp
  with eq have "stem destination @ ''_'' @ str_of_nat k @ suffix_of destination = last destination"
    by (metis candidate_def parent_def append1_eq_conv)
  also have "last destination = stem destination @ suffix_of destination"
    using ne by (simp add: stem_suffix_of name_def)
  finally have "length (stem destination @ ''_'' @ str_of_nat k @ suffix_of destination)
                 = length (stem destination @ suffix_of destination)" by simp
  then show False by simp
qed

lemma resolve_conflict_least:
  assumes "f destination \<noteq> None" and "1 \<le> k" and "f (candidate destination k) = None"
    and "\<forall>j. 1 \<le> j \<and> j < k \<longrightarrow> f (candidate destination j) \<noteq> None"
  shows "resolve_conflict f destination = Some (candidate destination k)"
proof -
  have "resolve_loop f (parent destination) (stem destination) (suffix_of destination) 1
          = Some (candidate destination k)"
    unfolding candidate_def
    by (rule resolve_loop_least) (use assms in \<open>unfold candidate_def, blast+\<close>)
  with assms(1) show ?thesis by (simp only: resolve_conflict_def if_False)
qed

lemma resolve_conflict_Some:
  assumes "resolve_conflict f destination = Some p"
  shows "f p = None \<and> (p = destination \<or> (f destination \<noteq> None \<and> (\<exists>k\<ge>1. p = candidate destination k)))"
proof (cases "f destination = None")
  case True
  with assms show ?thesis by (simp add: resolve_conflict_def)
next
  case False
  with assms have "resolve_loop f (parent destination) (stem destination) (suffix_of destination) 1 = Some p"
    by (simp add: resolve_conflict_def)
  from resolve_loop_Some[OF this] False show ?thesis by (auto simp: candidate_def)
qed

lemma resolve_conflict_returns:
  assumes "finite {p. f p \<noteq> None \<and> (\<exists>k. p = candidate destination k)}"
  shows "\<exists>p. resolve_conflict f destination = Some p"
proof (cases "f destination = None")
  case True
  then show ?thesis by (simp add: resolve_conflict_def)
next
  case False
  let ?S = "{k. f (candidate destination k) \<noteq> None}"
  have "candidate destination ` ?S \<subseteq> {p. f p \<noteq> None \<and> (\<exists>k. p = candidate destination k)}"
    by blast
  then have "finite (candidate destination ` ?S)" using assms by (rule finite_subset)
  moreover have "inj_on (candidate destination) ?S"
    by (rule inj_onI) (rule candidate_inj)
  ultimately have "finite ?S" by (rule finite_imageD)
  then have "finite (insert 0 ?S)" by simp
  then have "\<exists>k. k \<notin> insert 0 ?S" by (rule ex_new_if_finite[OF infinite_UNIV_nat])
  then obtain k0 where k0: "k0 \<notin> insert 0 ?S" ..
  define P where "P k \<longleftrightarrow> 1 \<le> k \<and> f (candidate destination k) = None" for k
  define m where "m = (LEAST k. P k)"
  from k0 have "P k0" by (simp add: P_def)
  then have "P m" unfolding m_def by (rule LeastI)
  then have m1: "1 \<le> m" and mfree: "f (candidate destination m) = None"
    by (simp_all add: P_def)
  have below: "\<forall>j. 1 \<le> j \<and> j < m \<longrightarrow> f (candidate destination j) \<noteq> None"
  proof (intro allI impI)
    fix j
    assume j: "1 \<le> j \<and> j < m"
    then have "\<not> P j" unfolding m_def using not_less_Least by blast
    with j show "f (candidate destination j) \<noteq> None" by (simp add: P_def)
  qed
  from False m1 mfree below
  have "resolve_conflict f destination = Some (candidate destination m)"
    by (rule resolve_conflict_least)
  then show ?thesis ..
qed

lemma resolve_conflict_diverges:
  assumes "f destination \<noteq> None" and "\<forall>k\<ge>1. f (candidate destination k) \<noteq> None"
  shows "resolve_conflict f destination = None"
  using assms resolve_loop_None[of 1 f "parent destination" "stem destination" "suffix_of destination"]
  by (simp add: resolve_conflict_def candidate_def)

lemma resolve_conflict_unbounded:
  "\<exists>f. finite (dom f) \<and> resolve_conflict f destination = Some (candidate destination (Suc n))"
proof -
  define f :: filesystem where
    "f = (\<lambda>p. if p = destination \<or> p \<in> candidate destination ` {1..n} then Some File else None)"
  have "dom f \<subseteq> insert destination (candidate destination ` {1..n})"
    by (auto simp: f_def dom_def split: if_splits)
  then have fin: "finite (dom f)" by (rule finite_subset) simp
  have a: "f destination \<noteq> None" by (simp add: f_def)
  have b: "f (candidate destination (Suc n)) = None"
    using candidate_neq[of destination "Suc n"] by (auto simp: f_def dest: candidate_inj)
  have c: "\<forall>j. 1 \<le> j \<and> j < Suc n \<longrightarrow> f (candidate destination j) \<noteq> None"
    by (auto simp: f_def)
  have "resolve_conflict f destination = Some (candidate destination (Suc n))"
    using a _ b c by (rule resolve_conflict_least) simp
  with fin show ?thesis by blast
qed



text \<open>
  Claim C9. The naming loop returns whenever only finitely many candidates
  \<open>stem_k.ext\<close> exist. The suffix has no upper bound: for every \<open>n\<close> some finite
  filesystem makes the result \<open>stem_(n+1).ext\<close>, distinct suffixes giving distinct
  candidates. When the destination and every candidate exist, the loop never returns.
\<close>

theorem resolve_conflict_termination:
  "(finite {p. f p \<noteq> None \<and> (\<exists>k. p = candidate destination k)}
      \<longrightarrow> (\<exists>p. resolve_conflict f destination = Some p)) \<and>
   (\<forall>n. \<exists>g. finite (dom g) \<and> resolve_conflict g destination = Some (candidate destination (Suc n))) \<and>
   (\<forall>j k. candidate destination j = candidate destination k \<longrightarrow> j = k) \<and>
   (f destination \<noteq> None \<and> (\<forall>k\<ge>1. f (candidate destination k) \<noteq> None)
      \<longrightarrow> resolve_conflict f destination = None)"
proof (intro conjI impI allI)
  assume "finite {p. f p \<noteq> None \<and> (\<exists>k. p = candidate destination k)}"
  then show "\<exists>p. resolve_conflict f destination = Some p" by (rule resolve_conflict_returns)
next
  fix n
  show "\<exists>g. finite (dom g) \<and> resolve_conflict g destination = Some (candidate destination (Suc n))"
    by (rule resolve_conflict_unbounded)
next
  fix j k
  assume "candidate destination j = candidate destination k"
  then show "j = k" by (rule candidate_inj)
next
  assume "f destination \<noteq> None \<and> (\<forall>k\<ge>1. f (candidate destination k) \<noteq> None)"
  then show "resolve_conflict f destination = None"
    by (intro resolve_conflict_diverges) blast+
qed

theorem resolve_conflict_termination_witness:
  "finite {p. taken_twice p \<noteq> None \<and> (\<exists>k. p = candidate [''d'', ''Documents'', ''a.txt''] k)} \<and>
   (\<exists>p. resolve_conflict taken_twice [''d'', ''Documents'', ''a.txt''] = Some p) \<and>
   resolve_conflict (\<lambda>p. Some File) [''d'', ''Documents'', ''a.txt''] = None"
proof -
  have "{p. taken_twice p \<noteq> None \<and> (\<exists>k. p = candidate [''d'', ''Documents'', ''a.txt''] k)}
          \<subseteq> dom taken_twice" by auto
  moreover have "finite (dom taken_twice)" by (simp add: taken_twice_def)
  ultimately have fin: "finite {p. taken_twice p \<noteq> None \<and>
      (\<exists>k. p = candidate [''d'', ''Documents'', ''a.txt''] k)}" by (rule finite_subset)
  have full: "(\<lambda>p. Some File) [''d'', ''Documents'', ''a.txt''] \<noteq> None \<and>
      (\<forall>k\<ge>1. (\<lambda>p. Some File) (candidate [''d'', ''Documents'', ''a.txt''] k) \<noteq> None)"
    by simp
  note returns = resolve_conflict_termination[of taken_twice "[''d'', ''Documents'', ''a.txt'']",
      THEN conjunct1, rule_format, OF fin]
  note diverges = resolve_conflict_termination[of "\<lambda>p. Some File" "[''d'', ''Documents'', ''a.txt'']",
      THEN conjunct2, THEN conjunct2, THEN conjunct2, rule_format, OF full]
  from fin returns diverges show ?thesis by (intro conjI)
qed

section \<open>State, log and collaborators\<close>

lemma logger_simps [simp]:
  "fs (logger l m s) = fs s" "procs (logger l m s) = procs s"
  "log (logger l m s) = log s @ [(l, m)]"
  by (simp_all add: logger_def)

lemma subprocess_run_simps [simp]:
  "fs (subprocess_run c s) = fs s" "log (subprocess_run c s) = log s"
  "procs (subprocess_run c s) = procs s @ [c]"
  by (simp_all add: subprocess_run_def)

lemma destinations_logger:
  "destinations (logger l m s) =
     destinations s @ (case logged_destination m of None \<Rightarrow> [] | Some p \<Rightarrow> [p])"
  by (simp add: destinations_def map_filter_def split: option.splits)

lemma destinations_cong: "log s = log t \<Longrightarrow> destinations s = destinations t"
  by (simp add: destinations_def)

lemma get_category_by_file_command_fs [simp]:
  "fs (fst (get_category_by_file_command e p s)) = fs s"
  by (simp add: get_category_by_file_command_def Let_def split: sum.splits)

lemma get_category_by_file_command_destinations [simp]:
  "destinations (fst (get_category_by_file_command e p s)) = destinations s"
  by (simp add: get_category_by_file_command_def Let_def destinations_logger
      destinations_cong[of "subprocess_run c s" s for c s] split: sum.splits)

lemma get_category_by_file_command_log:
  "prefix (log s) (log (fst (get_category_by_file_command e p s)))"
  by (simp add: get_category_by_file_command_def Let_def split: sum.splits)

lemma classify_fst: "fst (classify e p s) = fst (get_category_by_file_command e p s)"
  by (simp add: classify_def split: prod.splits option.splits)

lemma mkdir_Inr:
  assumes "mkdir e p s = Inr s'"
  shows "log s' = log s" and "procs s' = procs s"
    and "fs s' = fs s \<or> (fs s p = None \<and> fs s' = (fs s)(p \<mapsto> Dir))"
    and "fs s' p = Some Dir"
  using assms by (auto simp: mkdir_def split: option.splits node.splits)

lemma move_log_procs:
  assumes "move e src dst s = (s', r)"
  shows "log s' = log s" and "procs s' = procs s"
  using assms by (auto simp: move_def Let_def split: option.splits if_splits prod.splits)

text \<open>
  A move to a free destination touches the source and the destination only, and a move
  that raises leaves the source where it was.
\<close>

lemma move_frame:
  assumes "move e src dst s = (s', r)" and "fs s dst = None"
  shows "\<forall>q. q \<noteq> src \<and> q \<noteq> dst \<longrightarrow> fs s' q = fs s q"
    and "r = Inl x \<longrightarrow> (\<forall>q. q \<noteq> dst \<longrightarrow> fs s' q = fs s q)"
  using assms by (auto simp: move_def Let_def split: option.splits if_splits prod.splits)

lemma move_finite:
  assumes "move e src dst s = (s', r)" and "finite (dom (fs s))"
  shows "finite (dom (fs s'))"
  using assms by (auto simp: move_def Let_def split: option.splits if_splits prod.splits)

section \<open>Processing one file\<close>

lemma process_file_hidden:
  "startswith (name p) ''.'' \<Longrightarrow>
   process_file e self p s = Some (logger INFO (SkippingHidden (name p)) s, Inr ())"
  by (simp add: process_file_def)

text \<open>A file that is not hidden: classification, folder and resolution, then the mode.\<close>

lemma process_file_visible:
  assumes "\<not> startswith (name p) ''.''" and "classify e p s = (s1, category)"
  shows "process_file e self p s =
     (case mkdir e (target_dir self @ [category]) s1 of
        Inl x \<Rightarrow> Some (s1, Inl x)
      | Inr s2 \<Rightarrow>
          (case resolve_conflict (fs s2) ((target_dir self @ [category]) @ [name p]) of
             None \<Rightarrow> None
           | Some new_path \<Rightarrow>
               if dry_run self
               then Some (logger INFO (WouldMove (name p) new_path) s2, Inr ())
               else (case move e p new_path s2 of
                       (s3, Inl x) \<Rightarrow> Some (s3, Inl x)
                     | (s3, Inr u) \<Rightarrow> Some (logger INFO (Moved (name p) new_path) s3, Inr ()))))"
  using assms by (simp add: process_file_def Let_def)

section \<open>Dry run and apply\<close>

text \<open>
  Claim C2. From the same state, with the same collaborators, processing a file in
  dry-run mode and in apply mode invokes the sniffer identically and resolves the same
  destination: both return or neither does; when the apply run completes, both log the
  same destinations; when the dry run raises (folder creation), the apply run raises
  the same exception in the same state; and when only the apply run raises, it raised in
  the move to the very destination the dry run logged, started from the state the dry
  run logged it in.
\<close>

theorem mode_independent_decision:
  "(process_file e (self\<lparr>dry_run := True\<rparr>) p s = None \<longleftrightarrow>
    process_file e (self\<lparr>dry_run := False\<rparr>) p s = None) \<and>
   (\<forall>s1 r1 s2 r2.
      process_file e (self\<lparr>dry_run := True\<rparr>) p s = Some (s1, r1) \<and>
      process_file e (self\<lparr>dry_run := False\<rparr>) p s = Some (s2, r2) \<longrightarrow>
        procs s1 = procs s2 \<and>
        (r2 = Inr () \<longrightarrow> r1 = Inr () \<and> destinations s1 = destinations s2) \<and>
        (\<forall>x. r1 = Inl x \<longrightarrow> r2 = Inl x \<and> s2 = s1) \<and>
        (\<forall>x. r1 = Inr () \<and> r2 = Inl x \<longrightarrow>
           (\<exists>d pre. s1 = logger INFO (WouldMove (name p) d) pre \<and>
              destinations s1 = destinations s @ [d] \<and> move e p d pre = (s2, Inl x))))"
proof (cases "startswith (name p) ''.''")
  case True
  then show ?thesis by (simp add: process_file_hidden)
next
  case False
  obtain s1 category where c: "classify e p s = (s1, category)" by (cases "classify e p s")
  note visible = process_file_visible[OF False c]
  let ?folder = "target_dir self @ [category]"
  have "destinations (fst (classify e p s)) = destinations s" by (simp add: classify_fst)
  with c have d1: "destinations s1 = destinations s" by simp
  show ?thesis
  proof (cases "mkdir e ?folder s1")
    case (Inl x)
    then show ?thesis by (simp add: visible)
  next
    case (Inr s2)
    have d2: "destinations s2 = destinations s"
      using mkdir_Inr(1)[OF Inr] d1 destinations_cong by metis
    show ?thesis
    proof (cases "resolve_conflict (fs s2) (?folder @ [name p])")
      case None
      with Inr show ?thesis by (simp add: visible)
    next
      case (Some new_path)
      obtain s3 r where m: "move e p new_path s2 = (s3, r)" by (cases "move e p new_path s2")
      have p3: "procs s3 = procs s2" and d3: "destinations s3 = destinations s"
        using move_log_procs[OF m] d2 destinations_cong[of s3 s2] by simp_all
      show ?thesis
      proof (cases r)
        case failed: (Inl x)
        with Inr Some m p3 show ?thesis
          by (auto simp: visible destinations_logger d2 intro!: exI[of _ s2])
      next
        case moved: (Inr u)
        with Inr Some m p3 d3 show ?thesis
          by (simp add: visible destinations_logger d2)
      qed
    qed
  qed
qed

theorem mode_independent_decision_witness:
  "\<exists>s1 s2.
     process_file no_sniffer \<lparr>target_dir = [''d''], dry_run = True\<rparr> [''d'', ''a.txt'']
       crowded_inbox = Some (s1, Inr ()) \<and>
     process_file no_sniffer \<lparr>target_dir = [''d''], dry_run = False\<rparr> [''d'', ''a.txt'']
       crowded_inbox = Some (s2, Inr ()) \<and>
     destinations s1 = destinations s2 \<and>
     destinations s2 = [[''d'', ''Documents'', ''a_2.txt'']] \<and> procs s1 = procs s2"
proof -
  let ?self = "\<lparr>target_dir = [''d''], dry_run = True\<rparr>"
  let ?p = "[''d'', ''a.txt'']"
  have dry: "map_option (\<lambda>(s, r). r) (process_file no_sniffer (?self\<lparr>dry_run := True\<rparr>) ?p crowded_inbox)
               = Some (Inr ())"
    by code_simp
  have app: "map_option (\<lambda>(s, r). (destinations s, r))
               (process_file no_sniffer (?self\<lparr>dry_run := False\<rparr>) ?p crowded_inbox)
               = Some ([[''d'', ''Documents'', ''a_2.txt'']], Inr ())"
    by code_simp
  from dry obtain s1 where 1:
    "process_file no_sniffer (?self\<lparr>dry_run := True\<rparr>) ?p crowded_inbox = Some (s1, Inr ())"
    by auto
  from app obtain s2 where 2:
    "process_file no_sniffer (?self\<lparr>dry_run := False\<rparr>) ?p crowded_inbox = Some (s2, Inr ())"
    and d: "destinations s2 = [[''d'', ''Documents'', ''a_2.txt'']]"
    by auto
  note both = mode_independent_decision[of no_sniffer ?self ?p crowded_inbox,
      THEN conjunct2, rule_format, OF conjI[OF 1 2]]
  from both have "procs s1 = procs s2" and "destinations s1 = destinations s2" by simp_all
  with 1 2 d show ?thesis by auto
qed

text \<open>
  Claim C1 says that in dry-run mode the filesystem after processing a file equals the
  filesystem before. The folder is created (line 84) before the mode is tested
  (line 88): processing \<open>d/a.txt\<close> in dry-run mode, in a directory without a
  \<open>Documents\<close> folder, returns normally and leaves the folder \<open>d/Documents\<close> behind.
\<close>

theorem dry_run_creates_folder:
  "\<exists>s'. process_file no_sniffer \<lparr>target_dir = [''d''], dry_run = True\<rparr> [''d'', ''a.txt'']
           inbox = Some (s', Inr ()) \<and>
         fs inbox [''d'', ''Documents''] = None \<and> fs s' [''d'', ''Documents''] = Some Dir \<and>
         fs s' \<noteq> fs inbox"
proof -
  have "map_option (\<lambda>(s, r). (fs s [''d'', ''Documents''], r))
          (process_file no_sniffer \<lparr>target_dir = [''d''], dry_run = True\<rparr> [''d'', ''a.txt''] inbox)
        = Some (Some Dir, Inr ())"
    by code_simp
  then obtain s' where 1: "process_file no_sniffer \<lparr>target_dir = [''d''], dry_run = True\<rparr>
      [''d'', ''a.txt''] inbox = Some (s', Inr ())"
    and 2: "fs s' [''d'', ''Documents''] = Some Dir" by auto
  have 3: "fs inbox [''d'', ''Documents''] = None" by (simp add: inbox_def)
  from 2 3 have "fs s' \<noteq> fs inbox" by auto
  with 1 2 3 show ?thesis by blast
qed

text \<open>
  What a dry run does leave alone: every path that existed keeps its node, and the only
  path that can change is the category folder.
\<close>

lemma dry_run_moves_nothing:
  assumes "dry_run self" and "process_file e self p s = Some (s', r)"
  shows "\<forall>q. q \<noteq> target_dir self @ [snd (classify e p s)] \<longrightarrow> fs s' q = fs s q"
    and "\<forall>q. fs s q \<noteq> None \<longrightarrow> fs s' q = fs s q"
proof -
  have "(\<forall>q. q \<noteq> target_dir self @ [snd (classify e p s)] \<longrightarrow> fs s' q = fs s q) \<and>
        (\<forall>q. fs s q \<noteq> None \<longrightarrow> fs s' q = fs s q)"
  proof (cases "startswith (name p) ''.''")
    case True
    with assms(2) show ?thesis by (auto simp: process_file_hidden)
  next
    case False
    obtain s1 category where c: "classify e p s = (s1, category)" by (cases "classify e p s")
    note visible = process_file_visible[OF False c]
    have "fs (fst (classify e p s)) = fs s" by (simp add: classify_fst)
    with c have fs1: "fs s1 = fs s" by simp
    show ?thesis
    proof (cases "mkdir e (target_dir self @ [category]) s1")
      case (Inl x)
      with assms(2) have "s' = s1" by (simp add: visible)
      with fs1 show ?thesis by simp
    next
      case (Inr s2)
      from assms Inr have "fs s' = fs s2"
        by (auto simp: visible split: option.splits)
      with mkdir_Inr(3)[OF Inr] fs1 c show ?thesis by auto
    qed
  qed
  then show "\<forall>q. q \<noteq> target_dir self @ [snd (classify e p s)] \<longrightarrow> fs s' q = fs s q"
    and "\<forall>q. fs s q \<noteq> None \<longrightarrow> fs s' q = fs s q" by blast+
qed

text \<open>
  The agreement of the two modes is per file, from one and the same state. Over a whole
  run the states differ, since only the apply run moves files: with \<open>Documents/a.txt\<close>
  present, a dry run sends both \<open>a.txt\<close> and \<open>a_1.txt\<close> to
  \<open>Documents/a_1.txt\<close>, and the apply run sends the second to
  \<open>Documents/a_1_1.txt\<close>.
\<close>

lemma run_destinations_differ:
  "map_option destinations
     (organize_loop no_sniffer \<lparr>target_dir = [''d''], dry_run = True\<rparr>
        [[''d'', ''a.txt''], [''d'', ''a_1.txt'']] colliding_inbox)
     = Some [[''d'', ''Documents'', ''a_1.txt''], [''d'', ''Documents'', ''a_1.txt'']]"
  "map_option destinations
     (organize_loop no_sniffer \<lparr>target_dir = [''d''], dry_run = False\<rparr>
        [[''d'', ''a.txt''], [''d'', ''a_1.txt'']] colliding_inbox)
     = Some [[''d'', ''Documents'', ''a_1.txt''], [''d'', ''Documents'', ''a_1_1.txt'']]"
  by code_simp+

section \<open>The directory walker\<close>



lemma mkdir_finite:
  "mkdir e p s = Inr s' \<Longrightarrow> finite (dom (fs s)) \<Longrightarrow> finite (dom (fs s'))"
  using mkdir_Inr(3)[of e p s s'] by auto

lemma classify_finite: "finite (dom (fs s)) \<Longrightarrow> finite (dom (fs (fst (classify e p s))))"
  by (simp add: classify_fst)

lemma resolve_conflict_finite:
  assumes "finite (dom f)"
  shows "\<exists>p. resolve_conflict f destination = Some p"
proof (rule resolve_conflict_returns)
  have "{p. f p \<noteq> None \<and> (\<exists>k. p = candidate destination k)} \<subseteq> dom f" by auto
  then show "finite {p. f p \<noteq> None \<and> (\<exists>k. p = candidate destination k)}"
    using assms by (rule finite_subset)
qed

lemma process_file_returns:
  assumes "finite (dom (fs s))"
  shows "\<exists>s' r. process_file e self p s = Some (s', r) \<and> finite (dom (fs s'))"
proof (cases "startswith (name p) ''.''")
  case True
  with assms show ?thesis by (simp add: process_file_hidden)
next
  case False
  obtain s1 category where c: "classify e p s = (s1, category)" by (cases "classify e p s")
  note visible = process_file_visible[OF False c]
  have f1: "finite (dom (fs s1))" using classify_finite[OF assms, of e p] c by simp
  show ?thesis
  proof (cases "mkdir e (target_dir self @ [category]) s1")
    case (Inl x)
    with f1 show ?thesis by (simp add: visible)
  next
    case (Inr s2)
    have f2: "finite (dom (fs s2))" using mkdir_finite[OF Inr f1] .
    obtain new_path where r: "resolve_conflict (fs s2) ((target_dir self @ [category]) @ [name p]) = Some new_path"
      using resolve_conflict_finite[OF f2] by blast
    obtain s3 r3 where m: "move e p new_path s2 = (s3, r3)" by (cases "move e p new_path s2")
    have f3: "finite (dom (fs s3))" using move_finite[OF m f2] .
    show ?thesis
    proof (cases "dry_run self")
      case True
      with Inr r f2 show ?thesis by (simp add: visible)
    next
      case False
      with Inr r m f3 show ?thesis by (cases r3) (simp_all add: visible)
    qed
  qed
qed

lemma try_entry_returns:
  assumes "finite (dom (fs s))"
  shows "\<exists>s'. try_entry e self entry s = Some s' \<and> finite (dom (fs s'))"
proof (cases "fs s entry = Some File")
  case True
  obtain s1 r where "process_file e self entry s = Some (s1, r)" and "finite (dom (fs s1))"
    using process_file_returns[OF assms] by blast
  with True show ?thesis by (cases r) (simp_all add: try_entry_def)
next
  case False
  with assms show ?thesis by (simp add: try_entry_def)
qed

lemma organize_loop_returns:
  "finite (dom (fs s)) \<Longrightarrow> \<exists>s'. organize_loop e self entries s = Some s' \<and> finite (dom (fs s'))"
proof (induction entries arbitrary: s)
  case Nil
  then show ?case by simp
next
  case (Cons entry entries)
  obtain s1 where 1: "try_entry e self entry s = Some s1" and "finite (dom (fs s1))"
    using try_entry_returns[OF Cons.prems] by blast
  with Cons.IH[of s1] show ?case by simp
qed

lemma organize_loop_append:
  "organize_loop e self (xs @ ys) s =
     (case organize_loop e self xs s of None \<Rightarrow> None | Some s1 \<Rightarrow> organize_loop e self ys s1)"
  by (induction xs arbitrary: s) (auto split: option.splits)

lemma process_file_failure_frame:
  assumes "process_file e self p s = Some (s', Inl x)"
  shows "(\<forall>q. fs s q \<noteq> None \<longrightarrow> fs s' q = fs s q) \<and> prefix (log s) (log s')"
proof (cases "startswith (name p) ''.''")
  case True
  with assms show ?thesis by (simp add: process_file_hidden)
next
  case False
  obtain s1 category where c: "classify e p s = (s1, category)" by (cases "classify e p s")
  note visible = process_file_visible[OF False c]
  have "fs (fst (classify e p s)) = fs s" and "prefix (log s) (log (fst (classify e p s)))"
    by (simp_all add: classify_fst get_category_by_file_command_log)
  with c have fs1: "fs s1 = fs s" and log1: "prefix (log s) (log s1)" by simp_all
  show ?thesis
  proof (cases "mkdir e (target_dir self @ [category]) s1")
    case (Inl y)
    with assms have "s' = s1" by (simp add: visible)
    with fs1 log1 show ?thesis by simp
  next
    case (Inr s2)
    have fs2: "\<forall>q. fs s q \<noteq> None \<longrightarrow> fs s2 q = fs s q"
      using mkdir_Inr(3)[OF Inr] fs1 by auto
    have log2: "prefix (log s) (log s2)" using mkdir_Inr(1)[OF Inr] log1 by simp
    show ?thesis
    proof (cases "resolve_conflict (fs s2) ((target_dir self @ [category]) @ [name p])")
      case None
      with assms Inr show ?thesis by (simp add: visible)
    next
      case (Some new_path)
      have free: "fs s2 new_path = None" using resolve_conflict_Some[OF Some] by simp
      obtain s3 r3 where m: "move e p new_path s2 = (s3, r3)" by (cases "move e p new_path s2")
      from assms Inr Some m have s': "s' = s3" and r3: "r3 = Inl x"
        by (auto simp: visible split: if_splits sum.splits)
      have "\<forall>q. q \<noteq> new_path \<longrightarrow> fs s3 q = fs s2 q"
        using move_frame(2)[OF m free, of x] r3 by simp
      with free fs2 have "\<forall>q. fs s q \<noteq> None \<longrightarrow> fs s3 q = fs s q" by metis
      moreover have "prefix (log s) (log s3)" using move_log_procs(1)[OF m] log2 by simp
      ultimately show ?thesis using s' by simp
    qed
  qed
qed

text \<open>
  Claim C6. On a finite filesystem the loop over any enumeration returns, and processing
  \<open>earlier @ entry # later\<close> is processing \<open>earlier\<close>, then \<open>entry\<close>, then
  \<open>later\<close> from the state \<open>entry\<close> left, whether or not \<open>entry\<close> raised. When
  processing \<open>entry\<close> raises, the handler logs the exception at error level, every path
  that existed before is unchanged, and the log written so far is kept; a failed move
  may leave a copy at the destination, which did not exist before. Once the directory
  has been listed, \<open>organize\<close> returns normally with the state the loop over the
  listing reached; the only exception \<open>organize\<close> lets through is that of the listing
  itself, raised before any entry is processed.
\<close>

theorem per_file_fault_isolation:
  assumes "finite (dom (fs s))"
  shows "(\<exists>s1 s2 s3.
     organize_loop e self earlier s = Some s1 \<and>
     try_entry e self entry s1 = Some s2 \<and>
     organize_loop e self later s2 = Some s3 \<and>
     organize_loop e self (earlier @ entry # later) s = Some s3 \<and>
     (\<forall>sx x. fs s1 entry = Some File \<and> process_file e self entry s1 = Some (sx, Inl x) \<longrightarrow>
        s2 = logger ERROR (FailedToProcess entry x) sx \<and>
        (\<forall>q. fs s1 q \<noteq> None \<longrightarrow> fs s2 q = fs s1 q) \<and>
        prefix (log s1) (log s2))) \<and>
   (fs s (target_dir self) = Some Dir \<and> iterdir e (fs s) (target_dir self) = Inr names
      \<longrightarrow> (\<exists>s'. organize_loop e self (map (\<lambda>n. target_dir self @ [n]) names)
                  (logger INFO (Starting (target_dir self) (dry_run self)) s) = Some s' \<and>
                organize e self s = Some (s', Inr ()))) \<and>
   (\<forall>s' x. organize e self s = Some (s', Inl x) \<longrightarrow>
      fs s (target_dir self) = Some Dir \<and> iterdir e (fs s) (target_dir self) = Inl x \<and>
      s' = logger INFO (Starting (target_dir self) (dry_run self)) s)"
proof (intro conjI impI allI)
  obtain s1 where 1: "organize_loop e self earlier s = Some s1" and f1: "finite (dom (fs s1))"
    using organize_loop_returns[OF assms] by blast
  obtain s2 where 2: "try_entry e self entry s1 = Some s2" and f2: "finite (dom (fs s2))"
    using try_entry_returns[OF f1] by blast
  obtain s3 where 3: "organize_loop e self later s2 = Some s3"
    using organize_loop_returns[OF f2] by blast
  have 4: "organize_loop e self (earlier @ entry # later) s = Some s3"
    using 1 2 3 by (simp add: organize_loop_append)
  have 5: "\<forall>sx x. fs s1 entry = Some File \<and> process_file e self entry s1 = Some (sx, Inl x) \<longrightarrow>
        s2 = logger ERROR (FailedToProcess entry x) sx \<and>
        (\<forall>q. fs s1 q \<noteq> None \<longrightarrow> fs s2 q = fs s1 q) \<and>
        prefix (log s1) (log s2)"
  proof (intro allI impI)
    fix sx x
    assume h: "fs s1 entry = Some File \<and> process_file e self entry s1 = Some (sx, Inl x)"
    with 2 have eq: "s2 = logger ERROR (FailedToProcess entry x) sx" by (simp add: try_entry_def)
    from h process_file_failure_frame[of e self entry s1 sx x]
    have "(\<forall>q. fs s1 q \<noteq> None \<longrightarrow> fs sx q = fs s1 q)" and "prefix (log s1) (log sx)" by simp_all
    with eq show "s2 = logger ERROR (FailedToProcess entry x) sx \<and>
        (\<forall>q. fs s1 q \<noteq> None \<longrightarrow> fs s2 q = fs s1 q) \<and> prefix (log s1) (log s2)"
      by (simp add: prefix_prefix)
  qed
  from 1 2 3 4 5 show "\<exists>s1 s2 s3.
     organize_loop e self earlier s = Some s1 \<and>
     try_entry e self entry s1 = Some s2 \<and>
     organize_loop e self later s2 = Some s3 \<and>
     organize_loop e self (earlier @ entry # later) s = Some s3 \<and>
     (\<forall>sx x. fs s1 entry = Some File \<and> process_file e self entry s1 = Some (sx, Inl x) \<longrightarrow>
        s2 = logger ERROR (FailedToProcess entry x) sx \<and>
        (\<forall>q. fs s1 q \<noteq> None \<longrightarrow> fs s2 q = fs s1 q) \<and>
        prefix (log s1) (log s2))" by blast
next
  assume h: "fs s (target_dir self) = Some Dir \<and> iterdir e (fs s) (target_dir self) = Inr names"
  let ?s1 = "logger INFO (Starting (target_dir self) (dry_run self)) s"
  have "finite (dom (fs ?s1))" using assms by simp
  then obtain s' where
    "organize_loop e self (map (\<lambda>n. target_dir self @ [n]) names) ?s1 = Some s'"
    using organize_loop_returns by blast
  with h show "\<exists>s'. organize_loop e self (map (\<lambda>n. target_dir self @ [n]) names) ?s1 = Some s' \<and>
                organize e self s = Some (s', Inr ())"
    by (simp add: organize_def Let_def)
next
  fix s' x
  assume "organize e self s = Some (s', Inl x)"
  then have "fs s (target_dir self) = Some Dir \<and> iterdir e (fs s) (target_dir self) = Inl x \<and>
      s' = logger INFO (Starting (target_dir self) (dry_run self)) s"
    by (auto simp: organize_def Let_def split: if_splits sum.splits option.splits)
  then show "fs s (target_dir self) = Some Dir"
    and "iterdir e (fs s) (target_dir self) = Inl x"
    and "s' = logger INFO (Starting (target_dir self) (dry_run self)) s" by simp_all
qed

theorem per_file_fault_isolation_witness:
  "finite (dom (fs three_files)) \<and>
   (\<exists>s1 sx s2 s3.
      organize_loop locked_b \<lparr>target_dir = [''d''], dry_run = False\<rparr> [[''d'', ''a.txt'']] three_files
        = Some s1 \<and>
      fs s1 [''d'', ''b.txt''] = Some File \<and>
      process_file locked_b \<lparr>target_dir = [''d''], dry_run = False\<rparr> [''d'', ''b.txt''] s1
        = Some (sx, Inl (OSError ''Permission denied'')) \<and>
      s2 = logger ERROR (FailedToProcess [''d'', ''b.txt''] (OSError ''Permission denied'')) sx \<and>
      (\<forall>q. fs s1 q \<noteq> None \<longrightarrow> fs s2 q = fs s1 q) \<and>
      organize_loop locked_b \<lparr>target_dir = [''d''], dry_run = False\<rparr> [[''d'', ''c.txt'']] s2
        = Some s3 \<and>
      organize_loop locked_b \<lparr>target_dir = [''d''], dry_run = False\<rparr>
        [[''d'', ''a.txt''], [''d'', ''b.txt''], [''d'', ''c.txt'']] three_files = Some s3 \<and>
      fs s3 [''d'', ''Documents'', ''a.txt''] = Some File \<and>
      fs s3 [''d'', ''b.txt''] = Some File \<and>
      fs s3 [''d'', ''Documents'', ''b.txt''] = Some File \<and>
      fs s3 [''d'', ''Documents'', ''c.txt''] = Some File) \<and>
   fs three_files [''d''] = Some Dir \<and>
   iterdir locked_b (fs three_files) [''d''] = Inr [''a.txt'', ''b.txt'', ''c.txt''] \<and>
   (\<exists>s'. organize locked_b \<lparr>target_dir = [''d''], dry_run = False\<rparr> three_files
           = Some (s', Inr ()) \<and>
         fs s' [''d'', ''Documents'', ''a.txt''] = Some File \<and>
         fs s' [''d'', ''b.txt''] = Some File \<and>
         fs s' [''d'', ''Documents'', ''c.txt''] = Some File \<and>
         map fst (log s') = [INFO, WARNING, INFO, WARNING, ERROR, WARNING, INFO]) \<and>
   organize unreadable \<lparr>target_dir = [''d''], dry_run = False\<rparr> three_files
     = Some (logger INFO (Starting [''d''] False) three_files, Inl (OSError ''Permission denied''))"
proof -
  let ?self = "\<lparr>target_dir = [''d''], dry_run = False\<rparr>"
  let ?a = "[''d'', ''a.txt'']" and ?b = "[''d'', ''b.txt'']" and ?c = "[''d'', ''c.txt'']"
  have fin: "finite (dom (fs three_files))" by (simp add: three_files_def)
  note isolation = per_file_fault_isolation[OF fin]
  from isolation[of locked_b ?self "[?a]" ?b "[?c]", THEN conjunct1]
  obtain s1 s2 s3 where 1: "organize_loop locked_b ?self [?a] three_files = Some s1"
    and 2: "try_entry locked_b ?self ?b s1 = Some s2"
    and 3: "organize_loop locked_b ?self [?c] s2 = Some s3"
    and 4: "organize_loop locked_b ?self ([?a] @ ?b # [?c]) three_files = Some s3"
    and 5: "\<forall>sx x. fs s1 ?b = Some File \<and> process_file locked_b ?self ?b s1 = Some (sx, Inl x) \<longrightarrow>
        s2 = logger ERROR (FailedToProcess ?b x) sx \<and>
        (\<forall>q. fs s1 q \<noteq> None \<longrightarrow> fs s2 q = fs s1 q) \<and> prefix (log s1) (log s2)"
    by blast
  have "map_option (\<lambda>s. fs s ?b) (organize_loop locked_b ?self [?a] three_files) = Some (Some File)"
    by code_simp
  with 1 have b: "fs s1 ?b = Some File" by simp
  have "map_option snd (Option.bind (organize_loop locked_b ?self [?a] three_files)
          (process_file locked_b ?self ?b)) = Some (Inl (OSError ''Permission denied''))"
    by code_simp
  with 1 obtain sx where p: "process_file locked_b ?self ?b s1 = Some (sx, Inl (OSError ''Permission denied''))"
    by auto
  from 5 b p have s2: "s2 = logger ERROR (FailedToProcess ?b (OSError ''Permission denied'')) sx"
    and kept: "\<forall>q. fs s1 q \<noteq> None \<longrightarrow> fs s2 q = fs s1 q"
    by blast+
  have "map_option (\<lambda>s. map (fs s) [[''d'', ''Documents'', ''a.txt''], ?b,
            [''d'', ''Documents'', ''b.txt''], [''d'', ''Documents'', ''c.txt'']])
          (organize_loop locked_b ?self [?a, ?b, ?c] three_files)
        = Some [Some File, Some File, Some File, Some File]"
    by code_simp
  with 4 have e: "fs s3 [''d'', ''Documents'', ''a.txt''] = Some File"
    "fs s3 ?b = Some File" "fs s3 [''d'', ''Documents'', ''b.txt''] = Some File"
    "fs s3 [''d'', ''Documents'', ''c.txt''] = Some File"
    by simp_all
  from 4 have all: "organize_loop locked_b ?self [?a, ?b, ?c] three_files = Some s3" by simp
  from 1 b p s2 kept 3 all e have loop: "\<exists>s1 sx s2 s3.
      organize_loop locked_b ?self [?a] three_files = Some s1 \<and>
      fs s1 ?b = Some File \<and>
      process_file locked_b ?self ?b s1 = Some (sx, Inl (OSError ''Permission denied'')) \<and>
      s2 = logger ERROR (FailedToProcess ?b (OSError ''Permission denied'')) sx \<and>
      (\<forall>q. fs s1 q \<noteq> None \<longrightarrow> fs s2 q = fs s1 q) \<and>
      organize_loop locked_b ?self [?c] s2 = Some s3 \<and>
      organize_loop locked_b ?self [?a, ?b, ?c] three_files = Some s3 \<and>
      fs s3 [''d'', ''Documents'', ''a.txt''] = Some File \<and>
      fs s3 ?b = Some File \<and>
      fs s3 [''d'', ''Documents'', ''b.txt''] = Some File \<and>
      fs s3 [''d'', ''Documents'', ''c.txt''] = Some File" by blast
  have dir: "fs three_files [''d''] = Some Dir" by (simp add: three_files_def)
  have listing: "iterdir locked_b (fs three_files) [''d''] = Inr [''a.txt'', ''b.txt'', ''c.txt'']"
    by (simp add: locked_b_def)
  have listed: "fs three_files (target_dir ?self) = Some Dir \<and>
      iterdir locked_b (fs three_files) (target_dir ?self) = Inr [''a.txt'', ''b.txt'', ''c.txt'']"
    using dir listing by simp
  from isolation[of locked_b ?self _ _ _ "[''a.txt'', ''b.txt'', ''c.txt'']",
      THEN conjunct2, THEN conjunct1, rule_format, OF listed]
  obtain s' where run: "organize locked_b ?self three_files = Some (s', Inr ())" by auto
  have "map_option (\<lambda>(s, r). (map (fs s) [[''d'', ''Documents'', ''a.txt''], ?b,
            [''d'', ''Documents'', ''c.txt'']], map fst (log s)))
          (organize locked_b ?self three_files)
        = Some ([Some File, Some File, Some File],
                [INFO, WARNING, INFO, WARNING, ERROR, WARNING, INFO])"
    by code_simp
  with run have whole: "\<exists>s'. organize locked_b ?self three_files = Some (s', Inr ()) \<and>
         fs s' [''d'', ''Documents'', ''a.txt''] = Some File \<and>
         fs s' ?b = Some File \<and>
         fs s' [''d'', ''Documents'', ''c.txt''] = Some File \<and>
         map fst (log s') = [INFO, WARNING, INFO, WARNING, ERROR, WARNING, INFO]" by simp
  have "map_option snd (organize unreadable ?self three_files)
          = Some (Inl (OSError ''Permission denied''))"
    by code_simp
  then obtain t where raised: "organize unreadable ?self three_files
      = Some (t, Inl (OSError ''Permission denied''))" by auto
  from isolation[of unreadable ?self, THEN conjunct2, THEN conjunct2, rule_format, OF raised]
  have "t = logger INFO (Starting [''d''] False) three_files" by simp
  with raised have listing_raises: "organize unreadable ?self three_files
     = Some (logger INFO (Starting [''d''] False) three_files, Inl (OSError ''Permission denied''))"
    by simp
  from fin loop dir listing whole listing_raises show ?thesis by (intro conjI)
qed

section \<open>Hidden files\<close>









end
